theory Spec2Isabelle
  imports Main "HOL-Library.Word"
begin

unbundle bit_operations_syntax

section \<open>Password hashing: \<^verbatim>\<open>utils/password-hash\<close>\<close>

text \<open>
  JavaScript strings are modelled as \<^typ>\<open>string\<close>: a list of code units, here the code
  units \<open>0..255\<close>. A \<^verbatim>\<open>Uint8Array\<close> is a list of bytes. An exception is a value:
  \<^verbatim>\<open>new Error(msg)\<close> is \<open>Error msg\<close>, and the \<^verbatim>\<open>DOMException\<close> with which
  \<^verbatim>\<open>crypto.subtle.deriveBits\<close> rejects its parameters is \<open>OperationError\<close>.
\<close>

type_synonym byte = "8 word"

datatype exn = Error string | OperationError

definition ITERATIONS :: nat where
  "ITERATIONS = 100000"

definition SALT_LEN :: nat where
  "SALT_LEN = 16"

definition KEY_LEN :: nat where
  "KEY_LEN = 32"

subsection \<open>Built-ins of the language the module calls\<close>

text \<open>The digit of \<^verbatim>\<open>Number.prototype.toString(radix)\<close> for a value below the radix.\<close>

definition digitChar :: "nat \<Rightarrow> char" where
  "digitChar d = ''0123456789abcdefghijklmnopqrstuvwxyz'' ! d"

text \<open>\<^verbatim>\<open>n.toString(radix)\<close> for a non-negative integer \<open>n\<close> and a radix from 2 to 36.\<close>

function toString :: "nat \<Rightarrow> nat \<Rightarrow> string" where
  "toString radix n =
     (if n < radix \<or> radix < 2 then [digitChar n]
      else toString radix (n div radix) @ [digitChar (n mod radix)])"
  by pat_completeness auto
termination
  by (relation "measure (\<lambda>(radix, n). n)") auto

declare toString.simps [simp del]

text \<open>\<^verbatim>\<open>s.padStart(n, c)\<close> for a one-character filler.\<close>

definition padStart :: "nat \<Rightarrow> char \<Rightarrow> string \<Rightarrow> string" where
  "padStart n c s = replicate (n - length s) c @ s"

text \<open>\<^verbatim>\<open>s.slice(a, b)\<close> for indices \<open>0 \<le> a \<le> b\<close>; an end beyond the string is cut off.\<close>

definition sliceString :: "string \<Rightarrow> nat \<Rightarrow> nat \<Rightarrow> string" where
  "sliceString s a b = take (b - a) (drop a s)"

text \<open>
  \<^verbatim>\<open>s.split(sep)\<close> for a one-character separator: the pieces between the occurrences of
  the separator, so that a string with \<open>k\<close> separators has \<open>k + 1\<close> pieces and the empty
  string has the one piece \<open>''''\<close>.
\<close>

fun split :: "char \<Rightarrow> string \<Rightarrow> string list" where
  "split sep [] = [[]]"
| "split sep (c # cs) =
     (if c = sep then [] # split sep cs
      else (case split sep cs of
              [] \<Rightarrow> [[c]]
            | p # ps \<Rightarrow> (c # p) # ps))"

text \<open>
  The white space that \<^verbatim>\<open>parseInt\<close> skips (\<^verbatim>\<open>StrWhiteSpaceChar\<close>), among the code
  units \<open>0..255\<close>: TAB, LF, VT, FF, CR, SP and NBSP.
\<close>

definition isWhiteSpace :: "char \<Rightarrow> bool" where
  "isWhiteSpace c = (of_char c \<in> {9, 10, 11, 12, 13, 32, 160 :: nat})"

text \<open>The value of a character as a digit: \<open>0-9\<close>, then \<open>a-z\<close> or \<open>A-Z\<close> for 10 to 35.\<close>

definition digitValue :: "char \<Rightarrow> nat option" where
  "digitValue c =
     (let n = of_char c :: nat in
      if 48 \<le> n \<and> n \<le> 57 then Some (n - 48)
      else if 97 \<le> n \<and> n \<le> 122 then Some (n - 87)
      else if 65 \<le> n \<and> n \<le> 90 then Some (n - 55)
      else None)"

definition isDigitOf :: "nat \<Rightarrow> char \<Rightarrow> bool" where
  "isDigitOf radix c = (case digitValue c of None \<Rightarrow> False | Some d \<Rightarrow> d < radix)"

definition digitsValue :: "nat \<Rightarrow> string \<Rightarrow> nat" where
  "digitsValue radix z =
     foldl (\<lambda>acc c. acc * radix + (case digitValue c of None \<Rightarrow> 0 | Some d \<Rightarrow> d)) 0 z"

text \<open>
  \<^verbatim>\<open>parseInt(string, radix)\<close> for an explicit radix from 2 to 36: leading white space is
  skipped, then a sign, then (radix 16 only) a prefix \<^verbatim>\<open>0x\<close> or \<^verbatim>\<open>0X\<close>; the longest
  run of digits of the radix that follows is the value, and \<open>None\<close> is \<^verbatim>\<open>NaN\<close>, the
  result when that run is empty.
\<close>

definition parseInt :: "string \<Rightarrow> nat \<Rightarrow> int option" where
  "parseInt string radix =
     (let s0 = dropWhile isWhiteSpace string;
          sign = (if take 1 s0 = ''-'' then - 1 else 1 :: int);
          s1 = (if take 1 s0 = ''+'' \<or> take 1 s0 = ''-'' then drop 1 s0 else s0);
          s2 = (if radix = 16 \<and> (take 2 s1 = ''0x'' \<or> take 2 s1 = ''0X'') then drop 2 s1 else s1);
          z = takeWhile (isDigitOf radix) s2
      in if z = [] then None else Some (sign * int (digitsValue radix z)))"

text \<open>
  Storing a number into a \<^verbatim>\<open>Uint8Array\<close> element (\<^verbatim>\<open>ToUint8\<close>): \<^verbatim>\<open>NaN\<close> becomes 0,
  an integer is taken modulo 256.
\<close>

definition toUint8 :: "int option \<Rightarrow> byte" where
  "toUint8 v = (case v of None \<Rightarrow> 0 | Some n \<Rightarrow> word_of_int n)"

text \<open>
  \<^verbatim>\<open>s.charCodeAt(i)\<close> as an operand of \<^verbatim>\<open>^\<close>: the code unit at \<open>i\<close>; beyond the
  string it is \<^verbatim>\<open>NaN\<close>, which \<^verbatim>\<open>^\<close> converts to 0.
\<close>

definition charCodeAt :: "string \<Rightarrow> nat \<Rightarrow> int" where
  "charCodeAt s i = (if i < length s then of_char (s ! i) else 0)"

text \<open>
  \<^verbatim>\<open>new TextEncoder().encode(s)\<close>: UTF-8. A code unit below 128 is one byte, one from 128
  to 255 is two bytes.
\<close>

definition encode :: "string \<Rightarrow> byte list" where
  "encode s =
     concat (map (\<lambda>c. let n = of_char c :: nat in
                       if n < 128 then [of_nat n]
                       else [of_nat (192 + n div 64), of_nat (128 + n mod 64)]) s)"

text \<open>
  \<^verbatim>\<open>Number(s)\<close>. A non-empty string of decimal digits that denotes at most \<open>2^53\<close> is
  that integer, exactly. The value of any other string (white space, a sign, a fraction,
  an exponent, a radix prefix, \<^verbatim>\<open>Infinity\<close>, the empty string, \<^verbatim>\<open>NaN\<close>, or digits that a
  double has to round) is left uninterpreted: it is handed on as the string itself.
\<close>

datatype number = Num nat | NotDecimal string

definition Number :: "string \<Rightarrow> number" where
  "Number s =
     (if s \<noteq> [] \<and> list_all (isDigitOf 10) s \<and> digitsValue 10 s \<le> 2 ^ 53
      then Num (digitsValue 10 s) else NotDecimal s)"

text \<open>
  \<^verbatim>\<open>crypto.getRandomValues(new Uint8Array(n))\<close>: the array filled from the random source,
  \<open>rand i\<close> being the byte the source gives for position \<open>i\<close>.
\<close>

definition getRandomValues :: "(nat \<Rightarrow> byte) \<Rightarrow> nat \<Rightarrow> byte list" where
  "getRandomValues rand n = map rand [0..<n]"

text \<open>
  \<^verbatim>\<open>crypto.subtle.importKey\<close> followed by \<^verbatim>\<open>crypto.subtle.deriveBits\<close> with PBKDF2 and
  SHA-256 belongs to the platform and is a parameter of the model: from the encoded
  password, the salt, the iteration count and the length in bits it gives the derived
  bytes, or \<open>None\<close> when it rejects the parameters (the promise is rejected).
\<close>

type_synonym pbkdf2 = "byte list \<Rightarrow> byte list \<Rightarrow> number \<Rightarrow> nat \<Rightarrow> byte list option"

subsection \<open>The module's functions\<close>

definition buf2hex :: "byte list \<Rightarrow> string" where
  "buf2hex buf = concat (map (\<lambda>b. padStart 2 (CHR ''0'') (toString 16 (unat b))) buf)"

definition hex2buf :: "string \<Rightarrow> exn + byte list" where
  "hex2buf hex =
     (if length hex mod 2 \<noteq> 0 then Inl (Error ''Invalid hex string'')
      else Inr (map (\<lambda>i. toUint8 (parseInt (sliceString hex (i * 2) (i * 2 + 2)) 16))
                  [0..<length hex div 2]))"

text \<open>
  The loop of \<^verbatim>\<open>constantTimeEqual\<close>, from index \<open>i\<close> with the accumulator \<open>result\<close>. The
  last argument counts the iterations executed, and is returned with the accumulator.
\<close>

function constantTimeEqual_loop :: "string \<Rightarrow> string \<Rightarrow> nat \<Rightarrow> int \<Rightarrow> nat \<Rightarrow> int \<times> nat" where
  "constantTimeEqual_loop a b i result n =
     (if i < length a
      then constantTimeEqual_loop a b (i + 1) (result OR (charCodeAt a i XOR charCodeAt b i)) (n + 1)
      else (result, n))"
  by pat_completeness auto
termination
  by (relation "measure (\<lambda>(a, b, i, result, n). length a - i)") auto

declare constantTimeEqual_loop.simps [simp del]

text \<open>The answer of \<^verbatim>\<open>constantTimeEqual\<close> together with the number of loop iterations it ran.\<close>

definition constantTimeEqual_run :: "string \<Rightarrow> string \<Rightarrow> bool \<times> nat" where
  "constantTimeEqual_run a b =
     (if length a \<noteq> length b then (False, 0)
      else (case constantTimeEqual_loop a b 0 0 0 of (result, n) \<Rightarrow> (result = 0, n)))"

definition constantTimeEqual :: "string \<Rightarrow> string \<Rightarrow> bool" where
  "constantTimeEqual a b = fst (constantTimeEqual_run a b)"

definition hashPassword :: "(nat \<Rightarrow> byte) \<Rightarrow> pbkdf2 \<Rightarrow> string \<Rightarrow> exn + string" where
  "hashPassword rand kdf password =
     (let salt = getRandomValues rand SALT_LEN in
      case kdf (encode password) salt (Num ITERATIONS) (KEY_LEN * 8) of
        None \<Rightarrow> Inl OperationError
      | Some bits \<Rightarrow>
          Inr (buf2hex salt @ '':'' @ buf2hex bits @ '':'' @ toString 10 ITERATIONS))"

text \<open>
  \<^verbatim>\<open>(hashHex.length / 2) * 8\<close> is computed in floating point, where the division is
  exact: it is four times the length, also for an odd length.
\<close>

definition verifyPassword :: "pbkdf2 \<Rightarrow> string \<Rightarrow> string \<Rightarrow> exn + bool" where
  "verifyPassword kdf password stored =
     (let parts = split (CHR '':'') stored in
      if length parts \<noteq> 3 then Inl (Error ''Bad hash format'')
      else
        let saltHex = parts ! 0; hashHex = parts ! 1; iterStr = parts ! 2 in
        case hex2buf saltHex of
          Inl e \<Rightarrow> Inl e
        | Inr salt \<Rightarrow>
            let iterations = Number iterStr in
            (case kdf (encode password) salt iterations (4 * length hashHex) of
               None \<Rightarrow> Inl OperationError
             | Some bits \<Rightarrow> Inr (constantTimeEqual (buf2hex bits) hashHex)))"

subsection \<open>The platform's promise, the specification's comparison, data to evaluate at\<close>

text \<open>
  What the platform promises of PBKDF2 \<^verbatim>\<open>deriveBits\<close>: for an iteration count from 1 to
  \<open>2^32 - 1\<close> and a positive length that is a multiple of 8 it succeeds, with exactly
  the requested number of bits.
\<close>

definition pbkdf2_contract :: "pbkdf2 \<Rightarrow> bool" where
  "pbkdf2_contract kdf \<longleftrightarrow>
     (\<forall>pw salt n bits. 0 < n \<and> n < 2 ^ 32 \<and> 0 < bits \<and> bits mod 8 = 0 \<longrightarrow>
        (\<exists>k. kdf pw salt (Num n) bits = Some k \<and> length k * 8 = bits))"

text \<open>
  The comparison the specification describes: over the raw bytes, with the OR of the XOR
  per byte index, and \<open>False\<close> at once when the lengths differ.
\<close>

definition bytesEqual_spec :: "byte list \<Rightarrow> byte list \<Rightarrow> bool" where
  "bytesEqual_spec a b =
     (if length a \<noteq> length b then False
      else fold (\<lambda>(x, y) result. result OR (x XOR y)) (zip a b) 0 = 0)"

text \<open>
  A derivation and a random source to evaluate the functions at concrete inputs. The
  derivation is not PBKDF2: it only keeps the platform's promise above.
\<close>

definition sample_kdf :: pbkdf2 where
  "sample_kdf pw salt iterations bits =
     (case iterations of
        Num n \<Rightarrow>
          if n = 0 \<or> 2 ^ 32 \<le> n \<or> bits = 0 \<or> bits mod 8 \<noteq> 0 then None
          else Some (map (\<lambda>i. of_nat (length pw + length salt + n + i)) [0..<bits div 8])
      | NotDecimal s \<Rightarrow> None)"

definition sample_rand :: "nat \<Rightarrow> byte" where
  "sample_rand i = of_nat (7 * i + 3)"

definition isLowerHex :: "char \<Rightarrow> bool" where
  "isLowerHex c = (c \<in> set ''0123456789abcdef'')"

text \<open>The two hexadecimal digits of a byte, high digit first.\<close>

definition hex2 :: "byte \<Rightarrow> string" where
  "hex2 b = [digitChar (unat b div 16), digitChar (unat b mod 16)]"

section \<open>Sessions: the route handlers\<close>

text \<open>
  The D1 database is the state, passed through every handler: the rows of the tables
  \<^verbatim>\<open>users\<close> and \<^verbatim>\<open>sessions\<close> in insertion order, the counters behind
  \<^verbatim>\<open>AUTOINCREMENT\<close>, and the statements run so far, recorded so that a claim can speak
  of what was looked up. The tables are taken as created: the statements of
  \<^verbatim>\<open>ensureSchema\<close> are \<^verbatim>\<open>CREATE TABLE IF NOT EXISTS\<close> and change nothing then.
\<close>

record user_row =
  u_id :: nat
  u_email :: string
  u_password :: string
  u_username :: string
  u_description :: "string option"
  u_profile_photo :: "string option"

record session_row =
  s_id :: nat
  s_user_id :: nat
  s_token :: string
  s_created_at :: int
  s_expires_at :: int

datatype statement =
    SelectSessionByToken string
  | DeleteSessionByToken string
  | SelectUserById nat
  | SelectUserByEmail string
  | SelectUserByUsername string
  | InsertUser string string
  | InsertSession nat string int int

record d1 =
  users :: "user_row list"
  sessions :: "session_row list"
  users_seq :: nat
  sessions_seq :: nat
  statements :: "statement list"

text \<open>\<^verbatim>\<open>SELECT user_id, expires_at FROM sessions WHERE token = ?\<close>\<close>

definition selectSessionsByToken :: "string \<Rightarrow> d1 \<Rightarrow> session_row list \<times> d1" where
  "selectSessionsByToken token db =
     (filter (\<lambda>r. s_token r = token) (sessions db),
      db\<lparr>statements := statements db @ [SelectSessionByToken token]\<rparr>)"

text \<open>\<^verbatim>\<open>DELETE FROM sessions WHERE token = ?\<close>\<close>

definition deleteSessionsByToken :: "string \<Rightarrow> d1 \<Rightarrow> d1" where
  "deleteSessionsByToken token db =
     db\<lparr>sessions := filter (\<lambda>r. s_token r \<noteq> token) (sessions db),
        statements := statements db @ [DeleteSessionByToken token]\<rparr>"

text \<open>\<^verbatim>\<open>SELECT ... FROM users WHERE id = ?\<close>, \<^verbatim>\<open>WHERE email = ?\<close>, \<^verbatim>\<open>WHERE username = ?\<close>\<close>

definition selectUsersById :: "nat \<Rightarrow> d1 \<Rightarrow> user_row list \<times> d1" where
  "selectUsersById userId db =
     (filter (\<lambda>r. u_id r = userId) (users db),
      db\<lparr>statements := statements db @ [SelectUserById userId]\<rparr>)"





subsection \<open>Requests and responses\<close>


record user_json =
  j_id :: nat
  j_email :: string
  j_username :: string
  j_description :: "string option"
  j_profilePhoto :: "string option"

datatype json = ErrorJson string | UserJson user_json | SuccessJson | NullJson

text \<open>\<^verbatim>\<open>setCookie(c, 'session', token, { ..., expires })\<close> and \<^verbatim>\<open>deleteCookie(c, 'session', ...)\<close>\<close>

datatype cookie = SetSession string int | DeleteSession

record response =
  status :: nat
  body :: json
  cookie :: "cookie option"





subsection \<open>The handlers\<close>

text \<open>
  \<^verbatim>\<open>getUserFromSession(c)\<close>: \<open>token\<close> is \<^verbatim>\<open>getCookie(c, 'session')\<close>, \<open>None\<close> when the
  request has no such cookie, and \<open>now\<close> is what \<^verbatim>\<open>Date.now()\<close> returns.
\<close>

definition getUserFromSession :: "string option \<Rightarrow> int \<Rightarrow> d1 \<Rightarrow> user_json option \<times> d1" where
  "getUserFromSession cookieValue now db =
     (case cookieValue of
        None \<Rightarrow> (None, db)
      | Some token \<Rightarrow>
          if token = [] then (None, db)
          else
            (case selectSessionsByToken token db of
               ([], db1) \<Rightarrow> (None, db1)
             | (session # _, db1) \<Rightarrow>
                 let nowSeconds = now div 1000 in
                 if nowSeconds \<ge> s_expires_at session then (None, deleteSessionsByToken token db1)
                 else
                   (case selectUsersById (s_user_id session) db1 of
                      ([], db2) \<Rightarrow> (None, db2)
                    | (user # _, db2) \<Rightarrow>
                        (Some \<lparr>j_id = u_id user, j_email = u_email user,
                               j_username = u_username user,
                               j_description = u_description user,
                               j_profilePhoto = u_profile_photo user\<rparr>, db2))))"




text \<open>\<^verbatim>\<open>POST /api/auth/logout\<close>\<close>

definition logout :: "string option \<Rightarrow> d1 \<Rightarrow> (exn + response) \<times> d1" where
  "logout cookieValue db =
     (case cookieValue of
        None \<Rightarrow> (Inr \<lparr>status = 200, body = SuccessJson, cookie = None\<rparr>, db)
      | Some token \<Rightarrow>
          if token = [] then (Inr \<lparr>status = 200, body = SuccessJson, cookie = None\<rparr>, db)
          else (Inr \<lparr>status = 200, body = SuccessJson, cookie = Some DeleteSession\<rparr>,
                deleteSessionsByToken token db))"

text \<open>
  The same cookie presented in one request after the other, at the instants \<open>nows\<close>: the
  answers of \<open>getUserFromSession\<close> in order, and the database after the last.
\<close>

fun validations :: "string option \<Rightarrow> int list \<Rightarrow> d1 \<Rightarrow> user_json option list \<times> d1" where
  "validations cookieValue [] db = ([], db)"
| "validations cookieValue (now # nows) db =
     (case getUserFromSession cookieValue now db of
        (r, db1) \<Rightarrow> (case validations cookieValue nows db1 of (rs, db2) \<Rightarrow> (r # rs, db2)))"





definition sample_session :: session_row where
  "sample_session = \<lparr>s_id = 1, s_user_id = 7, s_token = ''tok-1'', s_created_at = 1700000000,
     s_expires_at = 1702592000\<rparr>"

definition sample_user :: user_row where
  "sample_user = \<lparr>u_id = 7, u_email = ''alice@example.org'', u_password = ''00:00:1'',
     u_username = ''alice'', u_description = None, u_profile_photo = None\<rparr>"

definition sample_db :: d1 where
  "sample_db = \<lparr>users = [sample_user], sessions = [sample_session], users_seq = 7,
     sessions_seq = 1, statements = []\<rparr>"

section \<open>Auxiliary facts\<close>


lemma split_no_sep: "sep \<notin> set s \<Longrightarrow> split sep s = [s]"
  by (induction s) auto

lemma split_append_sep: "sep \<notin> set a \<Longrightarrow> split sep (a @ sep # rest) = a # split sep rest"
  by (induction a) auto

lemma split_three:
  "sep \<notin> set a \<Longrightarrow> sep \<notin> set b \<Longrightarrow> sep \<notin> set c \<Longrightarrow>
   split sep (a @ [sep] @ b @ [sep] @ c) = [a, b, c]"
  by (simp add: split_append_sep split_no_sep)

lemma lt16_cases:
  "d < 16 \<Longrightarrow> d \<in> {0, 1, 2, 3, 4, 5, 6, 7, 8, 9, 10, 11, 12, 13, 14, 15 :: nat}"
  unfolding insert_iff empty_iff by arith

lemma digitValue_digitChar16: "d < 16 \<Longrightarrow> digitValue (digitChar d) = Some d"
  using lt16_cases [of d] by (auto simp: digitChar_def digitValue_def)

lemma digitChar16_plain:
  "d < 16 \<Longrightarrow> \<not> isWhiteSpace (digitChar d) \<and> digitChar d \<noteq> CHR ''+'' \<and> digitChar d \<noteq> CHR ''-''
     \<and> digitChar d \<noteq> CHR ''x'' \<and> digitChar d \<noteq> CHR ''X'' \<and> digitChar d \<noteq> CHR '':''"
  using lt16_cases [of d] by (auto simp: digitChar_def isWhiteSpace_def)

lemma toString16_byte:
  "n < 256 \<Longrightarrow> padStart 2 (CHR ''0'') (toString 16 n) = [digitChar (n div 16), digitChar (n mod 16)]"
proof (cases "n < 16")
  case True
  then show ?thesis
    by (simp add: toString.simps [of 16 n] padStart_def digitChar_def)
next
  case False
  assume "n < 256"
  with False have "n div 16 < 16" by simp
  with False show ?thesis
    by (simp add: toString.simps [of 16 n] toString.simps [of 16 "n div 16"] padStart_def)
qed


lemma parseInt_hex_pair:
  assumes "h < 16" "l < 16"
  shows "parseInt [digitChar h, digitChar l] 16 = Some (int (h * 16 + l))"
proof -
  have p: "isDigitOf 16 (digitChar h)" "isDigitOf 16 (digitChar l)"
    using assms by (simp_all add: isDigitOf_def digitValue_digitChar16)
  show ?thesis
    using assms digitChar16_plain [of h] digitChar16_plain [of l] p
    by (simp add: parseInt_def digitsValue_def digitValue_digitChar16)
qed


lemma buf2hex_hex2: "buf2hex buf = concat (map hex2 buf)"
proof -
  have "padStart 2 (CHR ''0'') (toString 16 (unat b)) = hex2 b" for b :: byte
  proof -
    have "unat b < 256" using unsigned_less [of b] by simp
    then show ?thesis by (simp add: toString16_byte hex2_def)
  qed
  then show ?thesis by (simp add: buf2hex_def)
qed

lemma toUint8_hex2: "toUint8 (parseInt (hex2 b) 16) = b"
proof -
  have "unat b < 256" using unsigned_less [of b] by simp
  then have "unat b div 16 < 16" "unat b mod 16 < 16" by simp_all
  then have "parseInt (hex2 b) 16 = Some (int (unat b div 16 * 16 + unat b mod 16))"
    unfolding hex2_def by (rule parseInt_hex_pair)
  also have "unat b div 16 * 16 + unat b mod 16 = unat b" by simp
  finally show ?thesis by (simp add: toUint8_def)
qed

lemma length_buf2hex: "length (buf2hex buf) = 2 * length buf"
  by (induction buf) (simp_all add: buf2hex_hex2 hex2_def)

lemma slice_buf2hex:
  "i < length buf \<Longrightarrow> sliceString (buf2hex buf) (i * 2) (i * 2 + 2) = hex2 (buf ! i)"
proof (induction buf arbitrary: i)
  case Nil
  then show ?case by simp
next
  case (Cons b buf)
  show ?case
  proof (cases i)
    case 0
    then show ?thesis by (simp add: buf2hex_hex2 sliceString_def hex2_def)
  next
    case (Suc j)
    with Cons.prems have "j < length buf" by simp
    from Cons.IH [OF this] Suc show ?thesis
      by (simp add: buf2hex_hex2 sliceString_def hex2_def)
  qed
qed

lemma hex2buf_buf2hex: "hex2buf (buf2hex buf) = Inr buf"
proof -
  have "map (\<lambda>i. toUint8 (parseInt (sliceString (buf2hex buf) (i * 2) (i * 2 + 2)) 16)) [0..<length buf]
        = map (\<lambda>i. buf ! i) [0..<length buf]"
  proof (rule map_cong [OF refl])
    fix i assume "i \<in> set [0..<length buf]"
    then have "i < length buf" by simp
    then show "toUint8 (parseInt (sliceString (buf2hex buf) (i * 2) (i * 2 + 2)) 16) = buf ! i"
      by (simp only: slice_buf2hex toUint8_hex2)
  qed
  then show ?thesis
    by (simp add: hex2buf_def length_buf2hex map_nth)
qed

lemma buf2hex_inject:
  assumes "buf2hex a = buf2hex b"
  shows "a = b"
proof -
  have "Inr a = hex2buf (buf2hex a)" by (simp only: hex2buf_buf2hex)
  also have "\<dots> = hex2buf (buf2hex b)" by (simp only: assms)
  also have "\<dots> = Inr b" by (simp only: hex2buf_buf2hex)
  finally show ?thesis by simp
qed

lemma colon_notin_buf2hex: "CHR '':'' \<notin> set (buf2hex buf)"
proof -
  have "CHR '':'' \<notin> set (hex2 b)" for b :: byte
  proof -
    have "unat b < 256" using unsigned_less [of b] by simp
    then have "unat b div 16 < 16" "unat b mod 16 < 16" by simp_all
    then show ?thesis
      using digitChar16_plain [of "unat b div 16"] digitChar16_plain [of "unat b mod 16"]
      by (auto simp: hex2_def)
  qed
  then show ?thesis by (simp add: buf2hex_hex2)
qed


lemma lt10_cases: "d < 10 \<Longrightarrow> d \<in> {0, 1, 2, 3, 4, 5, 6, 7, 8, 9 :: nat}"
  unfolding insert_iff empty_iff by arith

lemma digitChar10:
  "d < 10 \<Longrightarrow> digitValue (digitChar d) = Some d \<and> digitChar d \<noteq> CHR '':''"
  using lt10_cases [of d] by (auto simp: digitChar_def digitValue_def)

lemma digitsValue_snoc:
  "digitsValue radix (z @ [c]) =
     digitsValue radix z * radix + (case digitValue c of None \<Rightarrow> 0 | Some d \<Rightarrow> d)"
  by (simp add: digitsValue_def)

lemma toString10_props:
  "toString 10 n \<noteq> [] \<and> list_all (isDigitOf 10) (toString 10 n)
     \<and> digitsValue 10 (toString 10 n) = n \<and> CHR '':'' \<notin> set (toString 10 n)"
proof (induction n rule: less_induct)
  case (less n)
  show ?case
  proof (cases "n < 10")
    case True
    then show ?thesis
      using digitChar10 [of n]
      by (auto simp: toString.simps [of 10 n] isDigitOf_def digitsValue_def)
  next
    case False
    then have "n div 10 < n" by simp
    from less.IH [OF this] False digitChar10 [of "n mod 10"] show ?thesis
      by (auto simp: toString.simps [of 10 n] isDigitOf_def digitsValue_snoc)
  qed
qed

lemma Number_toString10: "n \<le> 2 ^ 53 \<Longrightarrow> Number (toString 10 n) = Num n"
  using toString10_props [of n] by (simp add: Number_def)

lemma constantTimeEqual_loop_count:
  "snd (constantTimeEqual_loop a b i result n) = n + (length a - i)"
proof (induction a b i result n rule: constantTimeEqual_loop.induct)
  case (1 a b i result n)
  show ?case
  proof (cases "i < length a")
    case True
    with "1" show ?thesis by (simp add: constantTimeEqual_loop.simps [of a b i])
  next
    case False
    then show ?thesis by (simp add: constantTimeEqual_loop.simps [of a b i])
  qed
qed

lemma int_xor_eq_0: "(x :: int) XOR y = 0 \<longleftrightarrow> x = y"
  by (auto simp: bit_eq_iff bit_xor_iff)

lemma all_from_split:
  assumes "i < (n :: nat)"
  shows "(\<forall>j. i \<le> j \<and> j < n \<longrightarrow> P j) \<longleftrightarrow> P i \<and> (\<forall>j. i + 1 \<le> j \<and> j < n \<longrightarrow> P j)"
proof
  assume h: "\<forall>j. i \<le> j \<and> j < n \<longrightarrow> P j"
  from h assms have "P i" by simp
  moreover from h have "\<forall>j. i + 1 \<le> j \<and> j < n \<longrightarrow> P j" by simp
  ultimately show "P i \<and> (\<forall>j. i + 1 \<le> j \<and> j < n \<longrightarrow> P j)" by simp
next
  assume h: "P i \<and> (\<forall>j. i + 1 \<le> j \<and> j < n \<longrightarrow> P j)"
  show "\<forall>j. i \<le> j \<and> j < n \<longrightarrow> P j"
  proof (intro allI impI)
    fix j assume j: "i \<le> j \<and> j < n"
    show "P j"
    proof (cases "j = i")
      case True
      with h show ?thesis by simp
    next
      case False
      with j have "i + 1 \<le> j" by simp
      with h j show ?thesis by simp
    qed
  qed
qed

lemma constantTimeEqual_loop_zero:
  "fst (constantTimeEqual_loop a b i result n) = 0 \<longleftrightarrow>
     result = 0 \<and> (\<forall>j. i \<le> j \<and> j < length a \<longrightarrow> charCodeAt a j = charCodeAt b j)"
proof (induction a b i result n rule: constantTimeEqual_loop.induct)
  case (1 a b i result n)
  show ?case
  proof (cases "i < length a")
    case True
    have "fst (constantTimeEqual_loop a b i result n)
          = fst (constantTimeEqual_loop a b (i + 1)
                   (result OR (charCodeAt a i XOR charCodeAt b i)) (n + 1))"
      using True by (subst constantTimeEqual_loop.simps) simp
    also have "\<dots> = 0 \<longleftrightarrow>
        (result OR (charCodeAt a i XOR charCodeAt b i)) = 0
        \<and> (\<forall>j. i + 1 \<le> j \<and> j < length a \<longrightarrow> charCodeAt a j = charCodeAt b j)"
      using "1" [OF True] .
    also have "\<dots> \<longleftrightarrow> result = 0 \<and> (charCodeAt a i = charCodeAt b i
        \<and> (\<forall>j. i + 1 \<le> j \<and> j < length a \<longrightarrow> charCodeAt a j = charCodeAt b j))"
      by (simp only: or_eq_0_iff int_xor_eq_0 conj_assoc)
    also have "\<dots> \<longleftrightarrow> result = 0
        \<and> (\<forall>j. i \<le> j \<and> j < length a \<longrightarrow> charCodeAt a j = charCodeAt b j)"
      by (simp only: all_from_split [OF True, where P = "\<lambda>j. charCodeAt a j = charCodeAt b j"])
    finally show ?thesis .
  next
    case False
    then show ?thesis by (simp add: constantTimeEqual_loop.simps [of a b i])
  qed
qed

lemma constantTimeEqual_run_eq:
  "constantTimeEqual_run a b = (a = b, if length a = length b then length a else 0)"
proof (cases "length a = length b")
  case False
  then show ?thesis by (auto simp: constantTimeEqual_run_def)
next
  case True
  have "fst (constantTimeEqual_loop a b 0 0 0) = 0 \<longleftrightarrow> a = b"
  proof -
    have "(\<forall>j. j < length a \<longrightarrow> charCodeAt a j = charCodeAt b j) \<longleftrightarrow> a = b"
      using True by (auto simp: charCodeAt_def list_eq_iff_nth_eq)
    then show ?thesis by (simp add: constantTimeEqual_loop_zero)
  qed
  moreover have "snd (constantTimeEqual_loop a b 0 0 0) = length a"
    by (simp add: constantTimeEqual_loop_count)
  ultimately show ?thesis
    using True by (cases "constantTimeEqual_loop a b 0 0 0") (simp add: constantTimeEqual_run_def)
qed

lemma constantTimeEqual_iff: "constantTimeEqual a b \<longleftrightarrow> a = b"
  by (simp add: constantTimeEqual_def constantTimeEqual_run_eq)




lemma sample_kdf_contract: "pbkdf2_contract sample_kdf"
  unfolding pbkdf2_contract_def sample_kdf_def by auto

lemma verifyPassword_formatted:
  assumes "n \<le> 2 ^ 53"
  shows "verifyPassword kdf pw (buf2hex salt @ '':'' @ buf2hex key @ '':'' @ toString 10 n) =
           (case kdf (encode pw) salt (Num n) (8 * length key) of
              None \<Rightarrow> Inl OperationError
            | Some bits \<Rightarrow> Inr (bits = key))"
proof -
  have parts: "split (CHR '':'') (buf2hex salt @ '':'' @ buf2hex key @ '':'' @ toString 10 n)
               = [buf2hex salt, buf2hex key, toString 10 n]"
    using split_three [of "CHR '':''" "buf2hex salt" "buf2hex key" "toString 10 n"]
      colon_notin_buf2hex toString10_props [of n] by simp
  have eq: "constantTimeEqual (buf2hex bits) (buf2hex key) \<longleftrightarrow> bits = key" for bits
    using buf2hex_inject [of bits key] by (auto simp: constantTimeEqual_iff)
  show ?thesis
    unfolding verifyPassword_def parts
    by (simp add: hex2buf_buf2hex Number_toString10 [OF assms] length_buf2hex eq
             split: option.splits)
qed

lemma isLowerHex_buf2hex: "list_all isLowerHex (buf2hex buf)"
proof -
  have d: "d < 16 \<Longrightarrow> isLowerHex (digitChar d)" for d
    using lt16_cases [of d] by (auto simp: digitChar_def isLowerHex_def)
  have "list_all isLowerHex (hex2 b)" for b :: byte
  proof -
    have "unat b < 256" using unsigned_less [of b] by simp
    then have h: "unat b div 16 < 16" and l: "unat b mod 16 < 16" by simp_all
    have "isLowerHex (digitChar (unat b div 16))" and "isLowerHex (digitChar (unat b mod 16))"
      using d [OF h] d [OF l] .
    then show ?thesis by (simp add: hex2_def)
  qed
  then show ?thesis by (induction buf) (simp_all add: buf2hex_hex2)
qed

lemma toString_small: "n < radix \<Longrightarrow> toString radix n = [digitChar n]"
  by (simp add: toString.simps [of radix n])

lemma toString_big:
  "\<not> n < radix \<Longrightarrow> 2 \<le> radix \<Longrightarrow>
   toString radix n = toString radix (n div radix) @ [digitChar (n mod radix)]"
  by (simp add: toString.simps [of radix n])

lemma toString10_ITERATIONS: "toString 10 ITERATIONS = ''100000''"
  by (simp add: ITERATIONS_def toString_small toString_big digitChar_def)

lemma pbkdf2_contractD:
  assumes "pbkdf2_contract kdf" "0 < n" "n < 2 ^ 32" "0 < bits" "bits mod 8 = 0"
  shows "\<exists>k. kdf pw salt (Num n) bits = Some k \<and> length k * 8 = bits"
proof -
  from assms(1) have "0 < n \<and> n < 2 ^ 32 \<and> 0 < bits \<and> bits mod 8 = 0 \<longrightarrow>
        (\<exists>k. kdf pw salt (Num n) bits = Some k \<and> length k * 8 = bits)"
    unfolding pbkdf2_contract_def by (elim allE)
  with assms(2-) show ?thesis by simp
qed

text \<open>
  C1. For every password \<open>P\<close> and every random source, on a platform that keeps the
  promise of \<open>pbkdf2_contract\<close>, \<open>hashPassword P\<close> returns a credential and
  \<open>verifyPassword P\<close> of that credential returns \<open>true\<close>.
\<close>

theorem verify_hash_roundtrip:
  assumes "pbkdf2_contract kdf"
  shows "\<exists>stored. hashPassword rand kdf P = Inr stored \<and> verifyPassword kdf P stored = Inr True"
proof -
  let ?salt = "getRandomValues rand SALT_LEN"
  from assms obtain k where
    k: "kdf (encode P) ?salt (Num ITERATIONS) (KEY_LEN * 8) = Some k" and len: "length k * 8 = KEY_LEN * 8"
  proof -
    have "\<exists>k. kdf (encode P) ?salt (Num ITERATIONS) (KEY_LEN * 8) = Some k \<and> length k * 8 = KEY_LEN * 8"
      by (rule pbkdf2_contractD [OF assms]) (simp_all add: ITERATIONS_def KEY_LEN_def)
    with that show ?thesis by (elim exE conjE)
  qed
  from len have len': "8 * length k = KEY_LEN * 8" by simp
  have "ITERATIONS \<le> 2 ^ 53" by (simp add: ITERATIONS_def)
  from verifyPassword_formatted [OF this, of kdf P ?salt k] k len'
  have "verifyPassword kdf P (buf2hex ?salt @ '':'' @ buf2hex k @ '':'' @ toString 10 ITERATIONS) = Inr True"
    by simp
  moreover from k
  have "hashPassword rand kdf P = Inr (buf2hex ?salt @ '':'' @ buf2hex k @ '':'' @ toString 10 ITERATIONS)"
    by (simp add: hashPassword_def)
  ultimately show ?thesis by simp
qed

theorem verify_hash_roundtrip_witness:
  "pbkdf2_contract sample_kdf \<and>
   (\<exists>stored. hashPassword sample_rand sample_kdf ''correct horse'' = Inr stored
      \<and> verifyPassword sample_kdf ''correct horse'' stored = Inr True)"
  using verify_hash_roundtrip [OF sample_kdf_contract, of sample_rand "''correct horse''"]
    sample_kdf_contract by simp





lemma hashPassword_total:
  assumes "pbkdf2_contract kdf"
  shows "\<exists>key. length key = KEY_LEN \<and>
           kdf (encode P) (getRandomValues rand SALT_LEN) (Num ITERATIONS) (KEY_LEN * 8) = Some key \<and>
           hashPassword rand kdf P =
             Inr (buf2hex (getRandomValues rand SALT_LEN) @ '':'' @ buf2hex key @ '':'' @ ''100000'')"
proof -
  let ?salt = "getRandomValues rand SALT_LEN"
  have "\<exists>k. kdf (encode P) ?salt (Num ITERATIONS) (KEY_LEN * 8) = Some k \<and> length k * 8 = KEY_LEN * 8"
    by (rule pbkdf2_contractD [OF assms]) (simp_all add: ITERATIONS_def KEY_LEN_def)
  then obtain k where k: "kdf (encode P) ?salt (Num ITERATIONS) (KEY_LEN * 8) = Some k"
    and len: "length k * 8 = KEY_LEN * 8" by (elim exE conjE)
  from len have "length k = KEY_LEN" by simp
  moreover from k have "hashPassword rand kdf P =
      Inr (buf2hex ?salt @ '':'' @ buf2hex k @ '':'' @ ''100000'')"
    by (simp add: hashPassword_def toString10_ITERATIONS)
  ultimately show ?thesis using k by blast
qed

text \<open>
  C7. On a platform that keeps the promise of \<open>pbkdf2_contract\<close>, \<open>hashPassword\<close> returns, for
  every password and every random source, \<open>hex(salt):hex(key):100000\<close>, where the salt is the
  16 bytes taken from the random source, in 32 lower-case hexadecimal characters, the key
  is the 32 bytes that the derivation gives for the encoded password, that salt, 100000
  iterations and 256 bits, in 64 such characters, and the last field is the decimal literal
  \<open>100000\<close>. The three fields are the pieces between the colons, and the two hexadecimal
  fields decode to the salt and the key.
\<close>

theorem hashPassword_format:
  assumes "pbkdf2_contract kdf"
  shows "\<exists>key. kdf (encode P) (map rand [0..<16]) (Num 100000) 256 = Some key
           \<and> hashPassword rand kdf P
               = Inr (buf2hex (map rand [0..<16]) @ '':'' @ buf2hex key @ '':'' @ ''100000'')
           \<and> length (map rand [0..<16]) = 16 \<and> length (buf2hex (map rand [0..<16])) = 32
           \<and> list_all isLowerHex (buf2hex (map rand [0..<16]))
           \<and> length key = 32 \<and> length (buf2hex key) = 64 \<and> list_all isLowerHex (buf2hex key)
           \<and> split (CHR '':'') (buf2hex (map rand [0..<16]) @ '':'' @ buf2hex key @ '':'' @ ''100000'')
               = [buf2hex (map rand [0..<16]), buf2hex key, ''100000'']
           \<and> hex2buf (buf2hex (map rand [0..<16])) = Inr (map rand [0..<16])
           \<and> hex2buf (buf2hex key) = Inr key"
proof -
  let ?salt = "map rand [0..<16]"
  have salt: "getRandomValues rand SALT_LEN = ?salt"
    by (simp add: getRandomValues_def SALT_LEN_def)
  from hashPassword_total [OF assms, of P rand] obtain key where
    len: "length key = KEY_LEN" and
    d: "kdf (encode P) (getRandomValues rand SALT_LEN) (Num ITERATIONS) (KEY_LEN * 8) = Some key" and
    h: "hashPassword rand kdf P =
          Inr (buf2hex (getRandomValues rand SALT_LEN) @ '':'' @ buf2hex key @ '':'' @ ''100000'')"
    by blast
  from d have d': "kdf (encode P) ?salt (Num 100000) 256 = Some key"
    by (simp add: salt ITERATIONS_def KEY_LEN_def)
  from h have h': "hashPassword rand kdf P
      = Inr (buf2hex ?salt @ '':'' @ buf2hex key @ '':'' @ ''100000'')"
    by (simp only: salt)
  have k: "length key = 32" using len by (simp add: KEY_LEN_def)
  have parts: "split (CHR '':'') (buf2hex ?salt @ '':'' @ buf2hex key @ '':'' @ ''100000'')
               = [buf2hex ?salt, buf2hex key, ''100000'']"
    using split_three [of "CHR '':''" "buf2hex ?salt" "buf2hex key" "''100000''"]
      colon_notin_buf2hex by simp
  have "kdf (encode P) ?salt (Num 100000) 256 = Some key
           \<and> hashPassword rand kdf P
               = Inr (buf2hex ?salt @ '':'' @ buf2hex key @ '':'' @ ''100000'')
           \<and> length ?salt = 16 \<and> length (buf2hex ?salt) = 32
           \<and> list_all isLowerHex (buf2hex ?salt)
           \<and> length key = 32 \<and> length (buf2hex key) = 64 \<and> list_all isLowerHex (buf2hex key)
           \<and> split (CHR '':'') (buf2hex ?salt @ '':'' @ buf2hex key @ '':'' @ ''100000'')
               = [buf2hex ?salt, buf2hex key, ''100000'']
           \<and> hex2buf (buf2hex ?salt) = Inr ?salt
           \<and> hex2buf (buf2hex key) = Inr key"
    using d' h' k parts
    by (simp add: length_buf2hex isLowerHex_buf2hex hex2buf_buf2hex)
  then show ?thesis ..
qed

theorem hashPassword_format_witness:
  "pbkdf2_contract sample_kdf \<and>
   (\<exists>key. sample_kdf (encode ''correct horse'') (map sample_rand [0..<16]) (Num 100000) 256 = Some key
      \<and> hashPassword sample_rand sample_kdf ''correct horse''
          = Inr (buf2hex (map sample_rand [0..<16]) @ '':'' @ buf2hex key @ '':'' @ ''100000'')
      \<and> length (buf2hex (map sample_rand [0..<16])) = 32
      \<and> length key = 32 \<and> length (buf2hex key) = 64)"
proof -
  from hashPassword_format [OF sample_kdf_contract, of "''correct horse''" sample_rand]
  obtain key where
    "sample_kdf (encode ''correct horse'') (map sample_rand [0..<16]) (Num 100000) 256 = Some key"
    "hashPassword sample_rand sample_kdf ''correct horse''
          = Inr (buf2hex (map sample_rand [0..<16]) @ '':'' @ buf2hex key @ '':'' @ ''100000'')"
    "length (buf2hex (map sample_rand [0..<16])) = 32"
    "length key = 32" "length (buf2hex key) = 64"
    by blast
  then have "\<exists>key. sample_kdf (encode ''correct horse'') (map sample_rand [0..<16]) (Num 100000) 256 = Some key
      \<and> hashPassword sample_rand sample_kdf ''correct horse''
          = Inr (buf2hex (map sample_rand [0..<16]) @ '':'' @ buf2hex key @ '':'' @ ''100000'')
      \<and> length (buf2hex (map sample_rand [0..<16])) = 32
      \<and> length key = 32 \<and> length (buf2hex key) = 64"
    by blast
  with sample_kdf_contract show ?thesis by simp
qed

text \<open>
  C4. On a credential \<open>hex(salt):hex(key):n\<close>, whatever the iteration count \<open>n\<close> and the
  length of the key, \<open>verifyPassword\<close> derives with the stored salt, the stored count \<open>n\<close>
  and as many bits as the stored key has, and answers whether the derived bytes are the
  stored ones; so a credential made with another count or key length verifies.
\<close>

theorem verify_uses_stored_parameters:
  assumes "n \<le> 2 ^ 53"
  shows "verifyPassword kdf pw (buf2hex salt @ '':'' @ buf2hex key @ '':'' @ toString 10 n) =
           (case kdf (encode pw) salt (Num n) (8 * length key) of
              None \<Rightarrow> Inl OperationError
            | Some bits \<Rightarrow> Inr (bits = key))
         \<and> (kdf (encode pw) salt (Num n) (8 * length key) = Some key \<longrightarrow>
              verifyPassword kdf pw (buf2hex salt @ '':'' @ buf2hex key @ '':'' @ toString 10 n) = Inr True)"
  using verifyPassword_formatted [OF assms, of kdf pw salt key] by simp

lemma sample_kdf_pw: "sample_kdf (encode ''pw'') [10, 11] (Num 5) 32 = Some [9, 10, 11, 12]"
  by (simp add: sample_kdf_def encode_def upt_rec)

lemma sample_stored: "buf2hex [10, 11] @ '':'' @ buf2hex [9, 10, 11, 12] @ '':'' @ toString 10 5
    = ''0a0b:090a0b0c:5''"
  by (simp add: buf2hex_hex2 hex2_def digitChar_def toString_small)

theorem verify_uses_stored_parameters_witness:
  "(5 :: nat) \<le> 2 ^ 53 \<and> sample_kdf (encode ''pw'') [10, 11] (Num 5) 32 = Some [9, 10, 11, 12]
   \<and> verifyPassword sample_kdf ''pw'' ''0a0b:090a0b0c:5'' = Inr True"
proof -
  have n: "(5 :: nat) \<le> 2 ^ 53" by simp
  from verify_uses_stored_parameters [OF n, of sample_kdf "''pw''" "[10, 11]" "[9, 10, 11, 12]"]
  have "verifyPassword sample_kdf ''pw''
          (buf2hex [10, 11] @ '':'' @ buf2hex [9, 10, 11, 12] @ '':'' @ toString 10 5) = Inr True"
    by (simp add: sample_kdf_pw)
  then have "verifyPassword sample_kdf ''pw'' ''0a0b:090a0b0c:5'' = Inr True"
    by (simp only: sample_stored)
  with n sample_kdf_pw show ?thesis by simp
qed

text \<open>
  C3. \<open>verifyPassword\<close> throws the error \<open>Bad hash format\<close> exactly when the stored string does
  not split into three parts at its colons. On a credential \<open>hex(salt):hex(key):n\<close> with a
  non-empty key and a count from 1 to \<open>2^32 - 1\<close> it throws nothing: it returns a boolean,
  \<open>true\<close> exactly when the derivation gives the stored key, so \<open>false\<close> on a mismatch.
\<close>

theorem verify_malformed_or_mismatch:
  "(verifyPassword kdf pw stored = Inl (Error ''Bad hash format'')
      \<longleftrightarrow> length (split (CHR '':'') stored) \<noteq> 3)
   \<and> (pbkdf2_contract kdf \<and> key \<noteq> [] \<and> 0 < n \<and> n < 2 ^ 32 \<longrightarrow>
        (\<exists>b. verifyPassword kdf pw' (buf2hex salt @ '':'' @ buf2hex key @ '':'' @ toString 10 n) = Inr b
           \<and> (b \<longleftrightarrow> kdf (encode pw') salt (Num n) (8 * length key) = Some key)))"
proof (intro conjI impI)
  show "verifyPassword kdf pw stored = Inl (Error ''Bad hash format'')
          \<longleftrightarrow> length (split (CHR '':'') stored) \<noteq> 3"
    by (auto simp: verifyPassword_def hex2buf_def Let_def split: option.splits)
next
  assume a: "pbkdf2_contract kdf \<and> key \<noteq> [] \<and> 0 < n \<and> n < 2 ^ 32"
  then have "\<exists>k. kdf (encode pw') salt (Num n) (8 * length key) = Some k \<and> length k * 8 = 8 * length key"
    by (intro pbkdf2_contractD) simp_all
  then obtain k where k: "kdf (encode pw') salt (Num n) (8 * length key) = Some k" by blast
  from a have "n < 2 ^ 32" by simp
  also have "(2 :: nat) ^ 32 \<le> 2 ^ 53" by simp
  finally have "n \<le> 2 ^ 53" by (rule less_imp_le)
  from verifyPassword_formatted [OF this, of kdf pw' salt key] k
  show "\<exists>b. verifyPassword kdf pw' (buf2hex salt @ '':'' @ buf2hex key @ '':'' @ toString 10 n) = Inr b
           \<and> (b \<longleftrightarrow> kdf (encode pw') salt (Num n) (8 * length key) = Some key)"
    by simp
qed

lemma sample_kdf_wrong: "sample_kdf (encode ''wrong'') [10, 11] (Num 5) 32 = Some [12, 13, 14, 15]"
  by (simp add: sample_kdf_def encode_def upt_rec)

theorem verify_malformed_or_mismatch_witness:
  "length (split (CHR '':'') ''0a0b:090a0b0c'') \<noteq> 3
   \<and> verifyPassword sample_kdf ''pw'' ''0a0b:090a0b0c'' = Inl (Error ''Bad hash format'')
   \<and> pbkdf2_contract sample_kdf \<and> [9, 10, 11, 12 :: byte] \<noteq> [] \<and> (0 :: nat) < 5 \<and> (5 :: nat) < 2 ^ 32
   \<and> verifyPassword sample_kdf ''wrong'' ''0a0b:090a0b0c:5'' = Inr False"
proof -
  have l: "length (split (CHR '':'') ''0a0b:090a0b0c'') \<noteq> 3" by simp
  have h: "pbkdf2_contract sample_kdf \<and> [9, 10, 11, 12 :: byte] \<noteq> [] \<and> (0 :: nat) < 5 \<and> (5 :: nat) < 2 ^ 32"
    by (simp add: sample_kdf_contract)
  note t = verify_malformed_or_mismatch [of sample_kdf "''pw''" "''0a0b:090a0b0c''"
      "[9, 10, 11, 12]" 5 "''wrong''" "[10, 11]"]
  from t l have a: "verifyPassword sample_kdf ''pw'' ''0a0b:090a0b0c'' = Inl (Error ''Bad hash format'')"
    by blast
  from t h have "\<exists>b. verifyPassword sample_kdf ''wrong''
        (buf2hex [10, 11] @ '':'' @ buf2hex [9, 10, 11, 12] @ '':'' @ toString 10 5) = Inr b
      \<and> (b \<longleftrightarrow> sample_kdf (encode ''wrong'') [10, 11] (Num 5) (8 * length [9, 10, 11, 12 :: byte])
              = Some [9, 10, 11, 12])"
    by blast
  then have "verifyPassword sample_kdf ''wrong''
        (buf2hex [10, 11] @ '':'' @ buf2hex [9, 10, 11, 12] @ '':'' @ toString 10 5) = Inr False"
    by (auto simp: sample_kdf_wrong)
  then have b: "verifyPassword sample_kdf ''wrong'' ''0a0b:090a0b0c:5'' = Inr False"
    by (simp only: sample_stored)
  from l a h b show ?thesis by simp
qed

text \<open>
  C10. A stored string that splits into three parts and whose salt field has an odd number
  of characters makes \<open>verifyPassword\<close> throw the error \<open>Invalid hex string\<close>, which is
  neither the error \<open>Bad hash format\<close> nor the answer \<open>false\<close>.
\<close>

theorem verify_odd_salt_throws:
  assumes "split (CHR '':'') stored = [saltHex, hashHex, iterStr]" and "odd (length saltHex)"
  shows "verifyPassword kdf pw stored = Inl (Error ''Invalid hex string'')
         \<and> verifyPassword kdf pw stored \<noteq> Inl (Error ''Bad hash format'')
         \<and> verifyPassword kdf pw stored \<noteq> Inr False"
  using assms by (simp add: verifyPassword_def hex2buf_def odd_iff_mod_2_eq_one)

theorem verify_odd_salt_throws_witness:
  "split (CHR '':'') ''abc:090a0b0c:5'' = [''abc'', ''090a0b0c'', ''5''] \<and> odd (length ''abc'')
   \<and> verifyPassword sample_kdf ''pw'' ''abc:090a0b0c:5'' = Inl (Error ''Invalid hex string'')
   \<and> verifyPassword sample_kdf ''pw'' ''abc:090a0b0c:5'' \<noteq> Inl (Error ''Bad hash format'')
   \<and> verifyPassword sample_kdf ''pw'' ''abc:090a0b0c:5'' \<noteq> Inr False"
proof -
  have s: "split (CHR '':'') ''abc:090a0b0c:5'' = [''abc'', ''090a0b0c'', ''5'']" by simp
  have o: "odd (length ''abc'')" by simp
  from verify_odd_salt_throws [OF s o, of sample_kdf "''pw''"] s o show ?thesis by simp
qed



lemma constantTimeEqual_loop_fold:
  "fst (constantTimeEqual_loop a b i result n) =
     fold (\<lambda>j r. r OR (charCodeAt a j XOR charCodeAt b j)) [i..<length a] result"
proof (induction a b i result n rule: constantTimeEqual_loop.induct)
  case (1 a b i result n)
  show ?case
  proof (cases "i < length a")
    case True
    have "fst (constantTimeEqual_loop a b i result n)
          = fst (constantTimeEqual_loop a b (i + 1)
                   (result OR (charCodeAt a i XOR charCodeAt b i)) (n + 1))"
      using True by (subst constantTimeEqual_loop.simps) simp
    also have "\<dots> = fold (\<lambda>j r. r OR (charCodeAt a j XOR charCodeAt b j)) [i + 1..<length a]
                        (result OR (charCodeAt a i XOR charCodeAt b i))"
      using "1" [OF True] .
    also have "\<dots> = fold (\<lambda>j r. r OR (charCodeAt a j XOR charCodeAt b j)) [i..<length a] result"
      using True by (simp add: upt_conv_Cons)
    finally show ?thesis .
  next
    case False
    then show ?thesis by (simp add: constantTimeEqual_loop.simps [of a b i])
  qed
qed

text \<open>
  C2, as the code has it. When the stored string has three parts, the salt decodes and the
  derivation succeeds, \<open>verifyPassword\<close> returns what \<open>constantTimeEqual\<close> says of the
  lower-case hexadecimal text of the derived key and the stored text of the key: \<open>true\<close>
  exactly when the two strings are the same, character code by character code. The lengths
  differing, it answers \<open>false\<close> without a loop iteration and without an exception; the
  lengths agreeing, the loop runs once for every character, whatever the contents, and the
  answer is whether the OR of the XORs of the character codes is 0.
\<close>

theorem verify_compares_hex_strings:
  assumes "split (CHR '':'') stored = [saltHex, hashHex, iterStr]"
    and "hex2buf saltHex = Inr salt"
    and "kdf (encode pw) salt (Number iterStr) (4 * length hashHex) = Some bits"
  shows "verifyPassword kdf pw stored = Inr (fst (constantTimeEqual_run (buf2hex bits) hashHex))
         \<and> constantTimeEqual_run (buf2hex bits) hashHex
             = (buf2hex bits = hashHex,
                if length (buf2hex bits) = length hashHex then length hashHex else 0)
         \<and> (length (buf2hex bits) = length hashHex \<longrightarrow>
              fst (constantTimeEqual_run (buf2hex bits) hashHex)
                = (fold (\<lambda>j r. r OR (charCodeAt (buf2hex bits) j XOR charCodeAt hashHex j))
                     [0..<length hashHex] 0 = 0))"
proof (intro conjI impI)
  show "verifyPassword kdf pw stored = Inr (fst (constantTimeEqual_run (buf2hex bits) hashHex))"
    using assms by (simp add: verifyPassword_def constantTimeEqual_def)
  show "constantTimeEqual_run (buf2hex bits) hashHex
          = (buf2hex bits = hashHex,
             if length (buf2hex bits) = length hashHex then length hashHex else 0)"
    by (simp add: constantTimeEqual_run_eq)
  assume l: "length (buf2hex bits) = length hashHex"
  have "fst (constantTimeEqual_run (buf2hex bits) hashHex)
          = (fst (constantTimeEqual_loop (buf2hex bits) hashHex 0 0 0) = 0)"
    using l by (cases "constantTimeEqual_loop (buf2hex bits) hashHex 0 0 0")
      (simp add: constantTimeEqual_run_def)
  then show "fst (constantTimeEqual_run (buf2hex bits) hashHex)
          = (fold (\<lambda>j r. r OR (charCodeAt (buf2hex bits) j XOR charCodeAt hashHex j))
               [0..<length hashHex] 0 = 0)"
    using l by (simp only: constantTimeEqual_loop_fold)
qed

lemma hex2buf_00: "hex2buf ''00'' = Inr [0]"
  using hex2buf_buf2hex [of "[0]"] by (simp add: buf2hex_hex2 hex2_def digitChar_def)

lemma hex2buf_AB: "hex2buf ''AB'' = Inr [171]"
  by (simp add: hex2buf_def sliceString_def parseInt_def isWhiteSpace_def isDigitOf_def
        digitValue_def digitsValue_def toUint8_def)

lemma Number_168: "Number ''168'' = Num 168"
  by (simp add: Number_def isDigitOf_def digitValue_def digitsValue_def)

lemma sample_kdf_AB: "sample_kdf (encode ''pw'') [0] (Num 168) 8 = Some [171]"
  by (simp add: sample_kdf_def encode_def)

lemma buf2hex_171: "buf2hex [171] = ''ab''"
  by (simp add: buf2hex_hex2 hex2_def digitChar_def)

lemma split_00_AB_168: "split (CHR '':'') ''00:AB:168'' = [''00'', ''AB'', ''168'']"
  by simp

theorem verify_compares_hex_strings_witness:
  "split (CHR '':'') ''00:AB:168'' = [''00'', ''AB'', ''168''] \<and> hex2buf ''00'' = Inr [0]
   \<and> sample_kdf (encode ''pw'') [0] (Number ''168'') (4 * length ''AB'') = Some [171]
   \<and> verifyPassword sample_kdf ''pw'' ''00:AB:168'' = Inr False
   \<and> constantTimeEqual_run ''ab'' ''AB'' = (False, 2)"
proof -
  have k: "sample_kdf (encode ''pw'') [0] (Number ''168'') (4 * length ''AB'') = Some [171]"
    by (simp add: Number_168 sample_kdf_AB)
  from verify_compares_hex_strings [where kdf = sample_kdf, OF split_00_AB_168 hex2buf_00 k]
  have "verifyPassword sample_kdf ''pw'' ''00:AB:168'' = Inr False
        \<and> constantTimeEqual_run ''ab'' ''AB'' = (False, 2)"
    by (simp add: buf2hex_171)
  with k split_00_AB_168 hex2buf_00 show ?thesis by simp
qed

text \<open>
  C2 as stated fails: the stored key \<open>AB\<close> decodes to the very byte that the derivation
  gives, the comparison over bytes accepts, and \<open>verifyPassword\<close> returns \<open>false\<close>, because it
  compares the characters \<open>ab\<close> and \<open>AB\<close>.
\<close>

theorem verify_compares_bytes_counterexample:
  "sample_kdf (encode ''pw'') [0] (Num 168) 8 = Some [171] \<and> hex2buf ''AB'' = Inr [171]
   \<and> bytesEqual_spec [171] [171]
   \<and> verifyPassword sample_kdf ''pw'' ''00:AB:168'' = Inr False"
proof -
  have "verifyPassword sample_kdf ''pw'' ''00:AB:168'' = Inr False"
    by (simp add: verifyPassword_def hex2buf_00 Number_168 sample_kdf_AB buf2hex_171
          constantTimeEqual_iff)
  moreover have "bytesEqual_spec [171] [171]"
    by (simp add: bytesEqual_spec_def)
  ultimately show ?thesis
    by (simp add: sample_kdf_AB hex2buf_AB)
qed




lemma filter_token_absent:
  "list_all (\<lambda>r. s_token r \<noteq> token) rows \<Longrightarrow> filter (\<lambda>r. s_token r = token) rows = []"
  by (induction rows) auto

lemma filter_token_keep:
  "list_all (\<lambda>r. s_token r \<noteq> token) rows \<Longrightarrow> filter (\<lambda>r. s_token r \<noteq> token) rows = rows"
  by (induction rows) auto

lemma list_all_filter_token: "list_all (\<lambda>r. s_token r \<noteq> token) (filter (\<lambda>r. s_token r \<noteq> token) rows)"
  by (induction rows) auto

lemma find_filter_token:
  "find (\<lambda>r. s_token r = token) rows = Some session \<Longrightarrow>
   \<exists>rest. filter (\<lambda>r. s_token r = token) rows = session # rest"
  by (induction rows) (auto split: if_splits)

lemma getUserFromSession_absent:
  assumes "token \<noteq> []" and "list_all (\<lambda>r. s_token r \<noteq> token) (sessions db)"
  shows "getUserFromSession (Some token) now db
           = (None, db\<lparr>statements := statements db @ [SelectSessionByToken token]\<rparr>)"
  using assms by (simp add: getUserFromSession_def selectSessionsByToken_def filter_token_absent)

lemma getUserFromSession_expired:
  assumes "token \<noteq> []" and "find (\<lambda>r. s_token r = token) (sessions db) = Some session"
    and "s_expires_at session \<le> now div 1000"
  shows "getUserFromSession (Some token) now db
           = (None, db\<lparr>sessions := filter (\<lambda>r. s_token r \<noteq> token) (sessions db),
                       statements := statements db
                         @ [SelectSessionByToken token, DeleteSessionByToken token]\<rparr>)"
proof -
  from find_filter_token [OF assms(2)] obtain rest where
    "filter (\<lambda>r. s_token r = token) (sessions db) = session # rest" ..
  with assms(1,3) show ?thesis
    by (simp add: getUserFromSession_def selectSessionsByToken_def deleteSessionsByToken_def)
qed

lemma validations_step:
  "getUserFromSession cookieValue now db = (r, db1) \<Longrightarrow>
   fst (validations cookieValue (now # nows) db) = r # fst (validations cookieValue nows db1)
   \<and> snd (validations cookieValue (now # nows) db) = snd (validations cookieValue nows db1)"
  by (simp split: prod.splits)

lemma getUserFromSession_no_record:
  assumes "\<forall>token. cookieValue = Some token \<and> token \<noteq> [] \<longrightarrow>
             list_all (\<lambda>r. s_token r \<noteq> token) (sessions db)"
  shows "\<exists>db1. getUserFromSession cookieValue now db = (None, db1)
           \<and> sessions db1 = sessions db \<and> users db1 = users db"
proof (cases "cookieValue = None \<or> cookieValue = Some []")
  case True
  then have "getUserFromSession cookieValue now db = (None, db)"
    by (auto simp: getUserFromSession_def)
  then show ?thesis by simp
next
  case False
  then obtain t where t: "cookieValue = Some t" "t \<noteq> []" by auto
  with assms have "list_all (\<lambda>r. s_token r \<noteq> t) (sessions db)" by simp
  from getUserFromSession_absent [OF t(2) this, of now] t(1) show ?thesis by simp
qed

lemma validations_absent:
  assumes "\<forall>token. cookieValue = Some token \<and> token \<noteq> [] \<longrightarrow>
             list_all (\<lambda>r. s_token r \<noteq> token) (sessions db)"
  shows "list_all (\<lambda>r. r = None) (fst (validations cookieValue nows db))
         \<and> sessions (snd (validations cookieValue nows db)) = sessions db
         \<and> users (snd (validations cookieValue nows db)) = users db"
  using assms
proof (induction nows arbitrary: db)
  case Nil
  then show ?case by simp
next
  case (Cons now nows)
  from getUserFromSession_no_record [OF Cons.prems, of now] obtain db1 where
    g: "getUserFromSession cookieValue now db = (None, db1)"
    and s: "sessions db1 = sessions db" and u: "users db1 = users db" by blast
  from Cons.prems s have
    "\<forall>token. cookieValue = Some token \<and> token \<noteq> [] \<longrightarrow>
       list_all (\<lambda>r. s_token r \<noteq> token) (sessions db1)"
    by simp
  from Cons.IH [OF this] validations_step [OF g, of nows] s u show ?case by simp
qed

text \<open>
  C5. A cookie carries the non-empty token of a session record, and the clock, in seconds,
  has reached the record's \<open>expires_at\<close>: \<open>getUserFromSession\<close> returns \<open>null\<close> and has
  deleted every record with that token, by the one \<open>DELETE\<close> after the lookup, leaving
  the users alone. Every validation of the same token after that, at whatever instants,
  returns \<open>null\<close> again. So at or after its expiry a token resolves to no user.
\<close>

theorem validate_expired_deletes:
  assumes "token \<noteq> []" and "find (\<lambda>r. s_token r = token) (sessions db) = Some session"
    and "s_expires_at session \<le> now div 1000"
  shows "\<exists>db1. getUserFromSession (Some token) now db = (None, db1)
           \<and> sessions db1 = filter (\<lambda>r. s_token r \<noteq> token) (sessions db)
           \<and> list_all (\<lambda>r. s_token r \<noteq> token) (sessions db1)
           \<and> users db1 = users db
           \<and> statements db1 = statements db @ [SelectSessionByToken token, DeleteSessionByToken token]
           \<and> list_all (\<lambda>r. r = None) (fst (validations (Some token) nows db1))
           \<and> sessions (snd (validations (Some token) nows db1)) = sessions db1"
proof -
  let ?db1 = "db\<lparr>sessions := filter (\<lambda>r. s_token r \<noteq> token) (sessions db),
                 statements := statements db
                   @ [SelectSessionByToken token, DeleteSessionByToken token]\<rparr>"
  have g: "getUserFromSession (Some token) now db = (None, ?db1)"
    using assms by (rule getUserFromSession_expired)
  have a: "\<forall>t. Some token = Some t \<and> t \<noteq> [] \<longrightarrow> list_all (\<lambda>r. s_token r \<noteq> t) (sessions ?db1)"
    by (simp add: list_all_filter_token)
  from validations_absent [OF a, of nows] g show ?thesis
    by (simp add: list_all_filter_token)
qed

theorem validate_expired_deletes_witness:
  "''tok-1'' \<noteq> [] \<and> find (\<lambda>r. s_token r = ''tok-1'') (sessions sample_db) = Some sample_session
   \<and> s_expires_at sample_session \<le> 1702592000000 div 1000
   \<and> (\<exists>db1. getUserFromSession (Some ''tok-1'') 1702592000000 sample_db = (None, db1)
        \<and> sessions db1 = []
        \<and> list_all (\<lambda>r. r = None) (fst (validations (Some ''tok-1'') [1702592000001, 1700000000000] db1)))"
proof -
  have t: "''tok-1'' \<noteq> []" by simp
  have f: "find (\<lambda>r. s_token r = ''tok-1'') (sessions sample_db) = Some sample_session"
    by (simp add: sample_db_def sample_session_def)
  have e: "s_expires_at sample_session \<le> 1702592000000 div 1000"
    by (simp add: sample_session_def)
  from validate_expired_deletes [OF t f e, of "[1702592000001, 1700000000000]"] obtain db1 where
    "getUserFromSession (Some ''tok-1'') 1702592000000 sample_db = (None, db1)"
    "sessions db1 = filter (\<lambda>r. s_token r \<noteq> ''tok-1'') (sessions sample_db)"
    "list_all (\<lambda>r. r = None) (fst (validations (Some ''tok-1'') [1702592000001, 1700000000000] db1))"
    by blast
  then have "getUserFromSession (Some ''tok-1'') 1702592000000 sample_db = (None, db1)
        \<and> sessions db1 = []
        \<and> list_all (\<lambda>r. r = None) (fst (validations (Some ''tok-1'') [1702592000001, 1700000000000] db1))"
    by (simp add: sample_db_def sample_session_def)
  then have "\<exists>db1. getUserFromSession (Some ''tok-1'') 1702592000000 sample_db = (None, db1)
        \<and> sessions db1 = []
        \<and> list_all (\<lambda>r. r = None) (fst (validations (Some ''tok-1'') [1702592000001, 1700000000000] db1))" ..
  with t f e show ?thesis by simp
qed

text \<open>
  C8. Without a cookie, or with an empty one, \<open>getUserFromSession\<close> returns \<open>null\<close> and the
  database is as before, no statement run. With a token that no session record has, it
  returns \<open>null\<close> after the one \<open>SELECT\<close>, and the rows of both tables are as before.
\<close>

theorem validate_without_session_frame:
  "getUserFromSession None now db = (None, db)
   \<and> getUserFromSession (Some []) now db = (None, db)
   \<and> (token \<noteq> [] \<and> list_all (\<lambda>r. s_token r \<noteq> token) (sessions db) \<longrightarrow>
        getUserFromSession (Some token) now db
          = (None, db\<lparr>statements := statements db @ [SelectSessionByToken token]\<rparr>)
        \<and> sessions (snd (getUserFromSession (Some token) now db)) = sessions db
        \<and> users (snd (getUserFromSession (Some token) now db)) = users db)"
proof (intro conjI impI)
  show "getUserFromSession None now db = (None, db)"
    by (simp add: getUserFromSession_def)
  show "getUserFromSession (Some []) now db = (None, db)"
    by (simp add: getUserFromSession_def)
next
  assume a: "token \<noteq> [] \<and> list_all (\<lambda>r. s_token r \<noteq> token) (sessions db)"
  then have g: "getUserFromSession (Some token) now db
      = (None, db\<lparr>statements := statements db @ [SelectSessionByToken token]\<rparr>)"
    by (simp add: getUserFromSession_absent)
  then show "getUserFromSession (Some token) now db
      = (None, db\<lparr>statements := statements db @ [SelectSessionByToken token]\<rparr>)" .
  from g show "sessions (snd (getUserFromSession (Some token) now db)) = sessions db" by simp
  from g show "users (snd (getUserFromSession (Some token) now db)) = users db" by simp
qed

theorem validate_without_session_frame_witness:
  "getUserFromSession None 1700000000000 sample_db = (None, sample_db)
   \<and> getUserFromSession (Some []) 1700000000000 sample_db = (None, sample_db)
   \<and> ''nonexistent-token'' \<noteq> []
   \<and> list_all (\<lambda>r. s_token r \<noteq> ''nonexistent-token'') (sessions sample_db)
   \<and> getUserFromSession (Some ''nonexistent-token'') 1700000000000 sample_db
       = (None, sample_db\<lparr>statements := [SelectSessionByToken ''nonexistent-token'']\<rparr>)
   \<and> sessions (snd (getUserFromSession (Some ''nonexistent-token'') 1700000000000 sample_db))
       = [sample_session]"
proof -
  have a: "''nonexistent-token'' \<noteq> []
      \<and> list_all (\<lambda>r. s_token r \<noteq> ''nonexistent-token'') (sessions sample_db)"
    by (simp add: sample_db_def sample_session_def)
  from validate_without_session_frame [of 1700000000000 sample_db "''nonexistent-token''"] a
  show ?thesis by (simp add: sample_db_def)
qed

















text \<open>
  C9. \<open>logout\<close> answers \<open>success\<close> whatever the cookie and the database, and again when
  repeated, the second time changing no session record; with a token that no record has it
  leaves the records as they were; it never touches the users; and after it every
  validation of the same cookie returns \<open>null\<close>.
\<close>

theorem revoke_idempotent:
  "map_sum id (\<lambda>resp. (status resp, body resp)) (fst (logout cookieValue db)) = Inr (200, SuccessJson)
   \<and> map_sum id (\<lambda>resp. (status resp, body resp)) (fst (logout cookieValue (snd (logout cookieValue db))))
       = Inr (200, SuccessJson)
   \<and> sessions (snd (logout cookieValue (snd (logout cookieValue db)))) = sessions (snd (logout cookieValue db))
   \<and> users (snd (logout cookieValue db)) = users db
   \<and> (list_all (\<lambda>r. s_token r \<noteq> token) (sessions db) \<longrightarrow>
        sessions (snd (logout (Some token) db)) = sessions db)
   \<and> list_all (\<lambda>r. r = None) (fst (validations cookieValue nows (snd (logout cookieValue db))))"
proof (intro conjI impI)
  show "map_sum id (\<lambda>resp. (status resp, body resp)) (fst (logout cookieValue db)) = Inr (200, SuccessJson)"
    by (simp add: logout_def split: option.splits)
  show "map_sum id (\<lambda>resp. (status resp, body resp)) (fst (logout cookieValue (snd (logout cookieValue db))))
       = Inr (200, SuccessJson)"
    by (simp add: logout_def split: option.splits)
  show "sessions (snd (logout cookieValue (snd (logout cookieValue db)))) = sessions (snd (logout cookieValue db))"
    by (simp add: logout_def deleteSessionsByToken_def split: option.splits)
  show "users (snd (logout cookieValue db)) = users db"
    by (simp add: logout_def deleteSessionsByToken_def split: option.splits)
next
  assume "list_all (\<lambda>r. s_token r \<noteq> token) (sessions db)"
  then show "sessions (snd (logout (Some token) db)) = sessions db"
    by (simp add: logout_def deleteSessionsByToken_def filter_token_keep)
next
  have "\<forall>token. cookieValue = Some token \<and> token \<noteq> [] \<longrightarrow>
          list_all (\<lambda>r. s_token r \<noteq> token) (sessions (snd (logout cookieValue db)))"
    by (auto simp: logout_def deleteSessionsByToken_def list_all_filter_token)
  from validations_absent [OF this, of nows]
  show "list_all (\<lambda>r. r = None) (fst (validations cookieValue nows (snd (logout cookieValue db))))"
    by simp
qed

theorem revoke_idempotent_witness:
  "map_sum id (\<lambda>resp. (status resp, body resp)) (fst (logout (Some ''tok-1'') sample_db))
     = Inr (200, SuccessJson)
   \<and> sessions (snd (logout (Some ''tok-1'') sample_db)) = []
   \<and> sessions (snd (logout (Some ''tok-1'') (snd (logout (Some ''tok-1'') sample_db)))) = []
   \<and> list_all (\<lambda>r. s_token r \<noteq> ''tok-2'') (sessions sample_db)
   \<and> sessions (snd (logout (Some ''tok-2'') sample_db)) = [sample_session]
   \<and> list_all (\<lambda>r. r = None)
        (fst (validations (Some ''tok-1'') [1700000000000, 1700000060000] (snd (logout (Some ''tok-1'') sample_db))))"
proof -
  have a: "list_all (\<lambda>r. s_token r \<noteq> ''tok-2'') (sessions sample_db)"
    by (simp add: sample_db_def sample_session_def)
  have b: "sessions (snd (logout (Some ''tok-1'') sample_db)) = []"
    by (simp add: logout_def deleteSessionsByToken_def sample_db_def sample_session_def)
  have c: "sessions sample_db = [sample_session]" by (simp add: sample_db_def)
  from revoke_idempotent [of "Some ''tok-1''" sample_db "''tok-2''" "[1700000000000, 1700000060000]"] a b c
  show ?thesis by simp
qed


end
